theory Spec2Isabelle
  imports Main "HOL-Library.Sublist"
begin

section \<open>Python string primitives used by \<^verbatim>\<open>merge_dark_mode.py\<close>\<close>

text \<open>
  A Python \<^verbatim>\<open>str\<close> is modelled as a \<^typ>\<open>string\<close>: one \<^typ>\<open>char\<close> per code point,
  for the code points below 256.  On these, \<^verbatim>\<open>str.isspace\<close>, \<^verbatim>\<open>str.strip()\<close> and the
  regular-expression class \<^verbatim>\<open>\s\<close> agree on the twelve characters listed in \<open>whitespace\<close>.
\<close>

definition whitespace :: "string" where
  "whitespace = [CHR 0x09, CHR 0x0A, CHR 0x0B, CHR 0x0C, CHR 0x0D,
                 CHR 0x1C, CHR 0x1D, CHR 0x1E, CHR 0x1F, CHR 0x20, CHR 0x85, CHR 0xA0]"

definition isspace :: "char \<Rightarrow> bool" where
  "isspace c = (c \<in> set whitespace)"

text \<open>\<^verbatim>\<open>s.startswith(p)\<close>.\<close>

definition startswith :: "string \<Rightarrow> string \<Rightarrow> bool" where
  "startswith s p = prefix p s"

text \<open>\<^verbatim>\<open>sub in s\<close>: \<open>sub\<close> occurs in \<open>s\<close> as a contiguous substring.\<close>

fun in_str :: "string \<Rightarrow> string \<Rightarrow> bool" where
  "in_str sub [] = (sub = [])"
| "in_str sub (c # cs) = (startswith (c # cs) sub \<or> in_str sub cs)"

text \<open>\<^verbatim>\<open>s.strip()\<close>: leading and trailing whitespace removed.\<close>

definition strip :: "string \<Rightarrow> string" where
  "strip s = rev (dropWhile isspace (rev (dropWhile isspace s)))"

text \<open>\<^verbatim>\<open>s.split(sep)\<close> for a one-character separator; the result is never empty.\<close>

fun split_on :: "char \<Rightarrow> string \<Rightarrow> string list" where
  "split_on sep [] = [[]]"
| "split_on sep (c # cs) =
     (if c = sep then [] # split_on sep cs
      else (case split_on sep cs of [] \<Rightarrow> [[c]] | w # ws \<Rightarrow> (c # w) # ws))"

text \<open>\<^verbatim>\<open>sep.join(xs)\<close>.\<close>

fun join :: "string \<Rightarrow> string list \<Rightarrow> string" where
  "join sep [] = []"
| "join sep [x] = x"
| "join sep (x # y # ys) = x @ sep @ join sep (y # ys)"

text \<open>
  \<^verbatim>\<open>re.sub(lit + r'\s+', '', s)\<close> for a literal \<open>lit\<close>: the pattern is tried at each position
  from left to right; where the literal is followed by at least one whitespace character the
  literal and the whole whitespace run (the quantifier is greedy) are deleted and the scan goes
  on after the match; otherwise the character is copied.  \<open>ws_match lit s\<close> is the length of
  the match at the start of \<open>s\<close>, and 0 when there is none.
\<close>

definition ws_match :: "string \<Rightarrow> string \<Rightarrow> nat" where
  "ws_match lit s =
     (if startswith s lit \<and> takeWhile isspace (drop (length lit) s) \<noteq> []
      then length lit + length (takeWhile isspace (drop (length lit) s))
      else 0)"

function re_sub_ws :: "string \<Rightarrow> string \<Rightarrow> string" where
  "re_sub_ws lit [] = []"
| "re_sub_ws lit (c # cs) =
     (if 0 < ws_match lit (c # cs)
      then re_sub_ws lit (drop (ws_match lit (c # cs)) (c # cs))
      else c # re_sub_ws lit cs)"
  by pat_completeness auto
termination
  by (relation "measure (\<lambda>(lit, s). length s)") auto

text \<open>\<^verbatim>\<open>s.replace(old, new)\<close> for a non-empty \<open>old\<close>: every occurrence, left to right.\<close>

function replace :: "string \<Rightarrow> string \<Rightarrow> string \<Rightarrow> string" where
  "replace old new [] = []"
| "replace old new (c # cs) =
     (if old \<noteq> [] \<and> startswith (c # cs) old
      then new @ replace old new (drop (length old) (c # cs))
      else c # replace old new cs)"
  by pat_completeness auto
termination
  by (relation "measure (\<lambda>(old, new, s). length s)") auto

section \<open>The selector override resolver: \<^verbatim>\<open>merge_dark_mode_css\<close>\<close>

text \<open>\<^verbatim>\<open>line.count('{') - line.count('}')\<close>, a Python integer that may be negative.\<close>

definition brace_delta :: "string \<Rightarrow> int" where
  "brace_delta line = int (count_list line CHR ''{'') - int (count_list line CHR ''}'')"

text \<open>Line 25: \<^verbatim>\<open>'body.dark-mode' in line or '.dark-mode' in line\<close>.\<close>

definition is_dark :: "string \<Rightarrow> bool" where
  "is_dark line = (in_str ''body.dark-mode'' line \<or> in_str ''.dark-mode'' line)"

text \<open>Lines 27-28: the two substitutions that remove the scope prefix.\<close>

definition strip_markers :: "string \<Rightarrow> string" where
  "strip_markers line = re_sub_ws ''.dark-mode'' (re_sub_ws ''body.dark-mode'' line)"

text \<open>
  Lines 35-40, the loop that collects the block of a dark-scoped rule.  The state is the
  cursor \<open>i\<close>, \<open>brace_count\<close> and \<open>rule_lines\<close>; the loop returns \<open>rule_lines\<close> and the cursor.
  A run that never leaves the loop is \<open>None\<close>.
\<close>

partial_function (option) collect_block ::
  "string list \<Rightarrow> nat \<Rightarrow> int \<Rightarrow> string list \<Rightarrow> (string list \<times> nat) option" where
  "collect_block lines i brace_count rule_lines =
     (if i < length lines \<and> (0 < brace_count \<or> \<not> in_str ''}'' (lines ! i)) then
        (if brace_count + brace_delta (lines ! i) \<le> 0
         then Some (rule_lines @ [lines ! i], i + 1)
         else collect_block lines (i + 1) (brace_count + brace_delta (lines ! i))
                (rule_lines @ [lines ! i]))
      else Some (rule_lines, i))"

declare collect_block.simps [code]

text \<open>
  Lines 58-64, the lookahead \<^verbatim>\<open>for j in range(i + 1, len(lines))\<close>: \<open>is_override_of\<close> is the
  test of line 59, \<open>scan_override\<close> runs over the list of indices, and \<open>has_dark_override\<close>
  is the flag after the loop.
\<close>

definition is_override_of :: "string \<Rightarrow> string \<Rightarrow> bool" where
  "is_override_of selector line =
     (in_str (''body.dark-mode '' @ selector) line \<or> in_str (''.dark-mode '' @ selector) line)"

fun scan_override :: "string list \<Rightarrow> string \<Rightarrow> nat list \<Rightarrow> bool" where
  "scan_override lines selector [] = False"
| "scan_override lines selector (j # js) =
     (if is_override_of selector (lines ! j) then True
      else if 3 < count_list (lines ! j) CHR ''{'' then False
      else scan_override lines selector js)"

definition has_dark_override :: "string list \<Rightarrow> nat \<Rightarrow> string \<Rightarrow> bool" where
  "has_dark_override lines i selector = scan_override lines selector [i + 1 ..< length lines]"

text \<open>Lines 72-74, the loop that skips the block of an overridden base rule.\<close>

partial_function (option) skip_block :: "string list \<Rightarrow> nat \<Rightarrow> int \<Rightarrow> nat option" where
  "skip_block lines i brace_count =
     (if i < length lines \<and> 0 < brace_count
      then skip_block lines (i + 1) (brace_count + brace_delta (lines ! i))
      else Some i)"

declare skip_block.simps [code]

text \<open>Line 54: the test for a base rule-opening line.\<close>

definition is_rule_opening :: "string \<Rightarrow> bool" where
  "is_rule_opening line =
     (strip line \<noteq> [] \<and> in_str ''{'' line \<and> \<not> startswith (strip line) ''/*'')"

text \<open>
  Lines 21-79, the main loop, with its state \<open>i\<close>, \<open>result_lines\<close> and \<open>merged_selectors\<close>
  passed explicitly.
\<close>

partial_function (option) merge_loop ::
  "string list \<Rightarrow> nat \<Rightarrow> string list \<Rightarrow> string set \<Rightarrow> string list option" where
  "merge_loop lines i result_lines merged_selectors =
     (if i < length lines then
        (if is_dark (lines ! i) then
           (case collect_block lines (i + 1) (brace_delta (lines ! i))
                   [strip_markers (lines ! i)] of
              None \<Rightarrow> None
            | Some (rule_lines, i1) \<Rightarrow>
                (if strip (strip_markers (lines ! i)) \<notin> merged_selectors
                 then merge_loop lines (i1 + 1)
                        (result_lines
                           @ (if i1 < length lines then rule_lines @ [lines ! i1] else rule_lines))
                        (insert (strip (strip_markers (lines ! i))) merged_selectors)
                 else merge_loop lines (i1 + 1) result_lines merged_selectors))
         else if is_rule_opening (lines ! i) then
           (if \<not> has_dark_override lines i (strip (hd (split_on CHR ''{'' (lines ! i))))
            then merge_loop lines (i + 1) (result_lines @ [lines ! i]) merged_selectors
            else (case skip_block lines (i + 1) (brace_delta (lines ! i)) of
                    None \<Rightarrow> None
                  | Some i2 \<Rightarrow> merge_loop lines i2 result_lines merged_selectors))
         else merge_loop lines (i + 1) (result_lines @ [lines ! i]) merged_selectors)
      else Some result_lines)"

declare merge_loop.simps [code]

text \<open>Lines 10-81: split into lines, run the loop from the first line, join the result.\<close>

definition merge_lines :: "string list \<Rightarrow> string list option" where
  "merge_lines lines = merge_loop lines 0 [] {}"

definition merge_dark_mode_css :: "string \<Rightarrow> string option" where
  "merge_dark_mode_css css_content =
     map_option (join [CHR 0x0A]) (merge_lines (split_on (CHR 0x0A) css_content))"

section \<open>The command-line tool\<close>

text \<open>Line 96: the path of the output file.\<close>

definition output_file :: "string \<Rightarrow> string" where
  "output_file css_file = replace ''.css'' ''_merged.css'' css_file"

text \<open>
  Lines 83-100.  \<open>argv\<close> is \<^verbatim>\<open>sys.argv\<close>, the script's name included.  What the operating
  system does is a parameter of the model: \<open>read_text p\<close> is the text that
  \<^verbatim>\<open>open(p, 'r').read()\<close> returns, decoded and with its line ends translated, and \<open>None\<close> when
  opening or reading raises; \<open>writable\<close> is the set of the paths for which \<^verbatim>\<open>open(p, 'w')\<close> and
  the write go through (a path in a directory that does not exist is not in it).  The tool
  prints the usage message and exits with status 1 (\<open>Usage_exit\<close>), stops on the exception of
  reading (\<open>Read_error\<close>) or of writing (\<open>Write_error\<close>), or writes the merged text and prints
  its message (\<open>Written\<close>, with the path opened for writing, the text passed to
  \<^verbatim>\<open>f.write\<close> and the message).
\<close>

datatype outcome = Usage_exit | Read_error | Write_error | Written string string string

definition main :: "string list \<Rightarrow> (string \<Rightarrow> string option) \<Rightarrow> string set \<Rightarrow> outcome option" where
  "main argv read_text writable =
     (if length argv \<noteq> 2 then Some Usage_exit
      else (case read_text (argv ! 1) of
              None \<Rightarrow> Some Read_error
            | Some content \<Rightarrow>
                (case merge_dark_mode_css content of
                   None \<Rightarrow> None
                 | Some merged \<Rightarrow>
                     (if output_file (argv ! 1) \<in> writable
                      then Some (Written (output_file (argv ! 1)) merged
                                   (''Merged CSS written to '' @ output_file (argv ! 1)))
                      else Some Write_error))))"

section \<open>The lookahead as the specification words it\<close>

text \<open>
  For comparison with \<open>scan_override\<close>: the lookahead as the specification describes it,
  which stops on a match or once the number of \<^verbatim>\<open>{\<close> counted over all the lines scanned so
  far (\<open>seen\<close>) has reached 4.
\<close>

fun scan_override_cumulative :: "string list \<Rightarrow> string \<Rightarrow> nat \<Rightarrow> nat list \<Rightarrow> bool" where
  "scan_override_cumulative lines selector seen [] = False"
| "scan_override_cumulative lines selector seen (j # js) =
     (if is_override_of selector (lines ! j) then True
      else if 4 \<le> seen + count_list (lines ! j) CHR ''{'' then False
      else scan_override_cumulative lines selector
             (seen + count_list (lines ! j) CHR ''{'') js)"

definition has_dark_override_cumulative :: "string list \<Rightarrow> nat \<Rightarrow> string \<Rightarrow> bool" where
  "has_dark_override_cumulative lines i selector =
     scan_override_cumulative lines selector 0 [i + 1 ..< length lines]"

section \<open>Termination\<close>

text \<open>
  Each of the three \<^verbatim>\<open>while\<close> loops moves its cursor forward on every iteration and stops at
  the end of the input, so each returns; the results also record that the collecting loop only
  appends to \<open>rule_lines\<close>, that the cursors never move back, and that the main loop only
  appends to \<open>result_lines\<close>.
\<close>

lemma collect_block_returns:
  "\<exists>rl e. collect_block lines i bc rl0 = Some (rl0 @ rl, e) \<and> i \<le> e"
proof (induction "length lines - i" arbitrary: i bc rl0 rule: less_induct)
  case less
  show ?case
  proof (cases "i < length lines \<and> (0 < bc \<or> \<not> in_str ''}'' (lines ! i))")
    case False
    then have "collect_block lines i bc rl0 = Some (rl0 @ [], i)"
      by (subst collect_block.simps) auto
    then show ?thesis by blast
  next
    case True
    show ?thesis
    proof (cases "bc + brace_delta (lines ! i) \<le> 0")
      case stop: True
      with True have "collect_block lines i bc rl0 = Some (rl0 @ [lines ! i], i + 1)"
        by (subst collect_block.simps) auto
      then show ?thesis by (metis le_add1)
    next
      case go: False
      from True have "length lines - (i + 1) < length lines - i" by arith
      from less [OF this, of "bc + brace_delta (lines ! i)" "rl0 @ [lines ! i]"]
      obtain rl e where
        r: "collect_block lines (i + 1) (bc + brace_delta (lines ! i)) (rl0 @ [lines ! i])
              = Some ((rl0 @ [lines ! i]) @ rl, e)" and e: "i + 1 \<le> e"
        by blast
      from True go r
      have "collect_block lines i bc rl0 = Some (rl0 @ ([lines ! i] @ rl), e)"
        by (subst collect_block.simps) auto
      with e show ?thesis by (metis add_leD1)
    qed
  qed
qed

lemma skip_block_returns: "\<exists>e. skip_block lines i bc = Some e \<and> i \<le> e"
proof (induction "length lines - i" arbitrary: i bc rule: less_induct)
  case less
  show ?case
  proof (cases "i < length lines \<and> 0 < bc")
    case False
    then have "skip_block lines i bc = Some i"
      by (subst skip_block.simps) auto
    then show ?thesis by simp
  next
    case True
    then have "length lines - (i + 1) < length lines - i" by arith
    from less [OF this, of "bc + brace_delta (lines ! i)"]
    obtain e where r: "skip_block lines (i + 1) (bc + brace_delta (lines ! i)) = Some e"
      and e: "i + 1 \<le> e" by blast
    from True r have "skip_block lines i bc = Some e"
      by (subst skip_block.simps) auto
    with e show ?thesis by simp
  qed
qed

lemma merge_loop_returns:
  "\<exists>out. merge_loop lines i res m = Some (res @ out)"
proof (induction "length lines - i" arbitrary: i res m rule: less_induct)
  case less
  show ?case
  proof (cases "i < length lines")
    case False
    then have "merge_loop lines i res m = Some (res @ [])"
      by (subst merge_loop.simps) (auto split: if_splits)
    then show ?thesis by blast
  next
    case True
    have IH: "\<exists>out. merge_loop lines i' res' m' = Some (res' @ out)" if "i < i'" for i' res' m'
      using less [of i' res' m'] True that by simp
    show ?thesis
    proof (cases "is_dark (lines ! i)")
      case dark: True
      obtain rl i1 where
        c: "collect_block lines (i + 1) (brace_delta (lines ! i)) [strip_markers (lines ! i)]
              = Some ([strip_markers (lines ! i)] @ rl, i1)" and i1: "i + 1 \<le> i1"
        using collect_block_returns by blast
      from i1 have lt: "i < i1 + 1" by simp
      show ?thesis
      proof (cases "strip (strip_markers (lines ! i)) \<in> m")
        case True
        from IH [OF lt, of res m] obtain out where
          "merge_loop lines (i1 + 1) res m = Some (res @ out)" by blast
        with \<open>i < length lines\<close> dark c True
        have "merge_loop lines i res m = Some (res @ out)"
          by (subst merge_loop.simps) (auto split: if_splits)
        then show ?thesis by blast
      next
        case False
        let ?blk = "(if i1 < length lines then ([strip_markers (lines ! i)] @ rl) @ [lines ! i1]
                     else [strip_markers (lines ! i)] @ rl)"
        from IH [OF lt, of "res @ ?blk" "insert (strip (strip_markers (lines ! i))) m"]
        obtain out where
          "merge_loop lines (i1 + 1) (res @ ?blk) (insert (strip (strip_markers (lines ! i))) m)
             = Some ((res @ ?blk) @ out)" by blast
        with \<open>i < length lines\<close> dark c False
        have "merge_loop lines i res m = Some (res @ (?blk @ out))"
          by (subst merge_loop.simps) (auto split: if_splits)
        then show ?thesis by blast
      qed
    next
      case light: False
      show ?thesis
      proof (cases "is_rule_opening (lines ! i)
                      \<and> has_dark_override lines i (strip (hd (split_on CHR ''{'' (lines ! i))))")
        case True
        obtain i2 where s: "skip_block lines (i + 1) (brace_delta (lines ! i)) = Some i2"
          and i2: "i + 1 \<le> i2" using skip_block_returns by blast
        from i2 have "i < i2" by simp
        from IH [OF this, of res m] obtain out where
          "merge_loop lines i2 res m = Some (res @ out)" by blast
        with \<open>i < length lines\<close> light True s
        have "merge_loop lines i res m = Some (res @ out)"
          by (subst merge_loop.simps) (auto split: if_splits)
        then show ?thesis by blast
      next
        case False
        from IH [of "i + 1" "res @ [lines ! i]" m] obtain out where
          "merge_loop lines (i + 1) (res @ [lines ! i]) m = Some ((res @ [lines ! i]) @ out)"
          by auto
        with \<open>i < length lines\<close> light False
        have "merge_loop lines i res m = Some (res @ ([lines ! i] @ out))"
          by (subst merge_loop.simps) (auto split: if_splits)
        then show ?thesis by blast
      qed
    qed
  qed
qed

text \<open>
  C8: \<^verbatim>\<open>merge_dark_mode_css\<close> returns on every input, whatever the balance of its braces, and
  a brace-counting scan whose cursor is at or past the end of the input stops there, whatever
  the brace count it has reached.
\<close>

theorem merge_dark_mode_css_terminates:
  "(\<exists>out. merge_dark_mode_css css_content = Some out)
   \<and> collect_block lines (length lines + k) brace_count rule_lines
         = Some (rule_lines, length lines + k)
   \<and> skip_block lines (length lines + k) brace_count = Some (length lines + k)"
proof -
  obtain out where "merge_loop (split_on (CHR 0x0A) css_content) 0 [] {} = Some ([] @ out)"
    using merge_loop_returns by blast
  then have "merge_dark_mode_css css_content = Some (join [CHR 0x0A] out)"
    by (simp add: merge_dark_mode_css_def merge_lines_def)
  moreover have "collect_block lines (length lines + k) brace_count rule_lines
                   = Some (rule_lines, length lines + k)"
    by (subst collect_block.simps) simp
  moreover have "skip_block lines (length lines + k) brace_count = Some (length lines + k)"
    by (subst skip_block.simps) simp
  ultimately show ?thesis by blast
qed

section \<open>Basic facts about the loops\<close>

lemma merge_loop_end: "length lines \<le> i \<Longrightarrow> merge_loop lines i res m = Some res"
  by (subst merge_loop.simps) simp

lemma merge_loop_dark:
  assumes "i < length lines" and "is_dark (lines ! i)"
    and "collect_block lines (i + 1) (brace_delta (lines ! i)) [strip_markers (lines ! i)]
           = Some (rl, i1)"
  shows "merge_loop lines i res m =
           (if strip (strip_markers (lines ! i)) \<notin> m
            then merge_loop lines (i1 + 1)
                   (res @ (if i1 < length lines then rl @ [lines ! i1] else rl))
                   (insert (strip (strip_markers (lines ! i))) m)
            else merge_loop lines (i1 + 1) res m)"
  using assms by (subst merge_loop.simps) simp

lemma merge_loop_skip:
  assumes "i < length lines" and "\<not> is_dark (lines ! i)" and "is_rule_opening (lines ! i)"
    and "has_dark_override lines i (strip (hd (split_on CHR ''{'' (lines ! i))))"
    and "skip_block lines (i + 1) (brace_delta (lines ! i)) = Some i2"
  shows "merge_loop lines i res m = merge_loop lines i2 res m"
  using assms by (subst merge_loop.simps) simp

lemma merge_loop_pass:
  assumes "i < length lines" and "\<not> is_dark (lines ! i)"
    and "\<not> (is_rule_opening (lines ! i)
            \<and> has_dark_override lines i (strip (hd (split_on CHR ''{'' (lines ! i)))))"
  shows "merge_loop lines i res m = merge_loop lines (i + 1) (res @ [lines ! i]) m"
  using assms by (subst merge_loop.simps) auto

lemma collect_block_span:
  "\<exists>e. i \<le> e \<and> e \<le> max i (length lines)
       \<and> collect_block lines i bc rl = Some (rl @ take (e - i) (drop i lines), e)"
proof (induction "length lines - i" arbitrary: i bc rl rule: less_induct)
  case less
  show ?case
  proof (cases "i < length lines \<and> (0 < bc \<or> \<not> in_str ''}'' (lines ! i))")
    case False
    then have "collect_block lines i bc rl = Some (rl @ take (i - i) (drop i lines), i)"
      by (subst collect_block.simps) auto
    then show ?thesis by (intro exI [of _ i]) simp
  next
    case True
    then have i: "i < length lines" by simp
    then have one: "take (Suc i - i) (drop i lines) = [lines ! i]"
      by (simp add: take_Suc_conv_app_nth Cons_nth_drop_Suc [symmetric])
    show ?thesis
    proof (cases "bc + brace_delta (lines ! i) \<le> 0")
      case stop: True
      with True one have "collect_block lines i bc rl
          = Some (rl @ take (Suc i - i) (drop i lines), Suc i)"
        by (subst collect_block.simps) simp
      with i show ?thesis by (intro exI [of _ "Suc i"]) simp
    next
      case go: False
      from i have "length lines - (i + 1) < length lines - i" by arith
      from less [OF this, of "bc + brace_delta (lines ! i)" "rl @ [lines ! i]"]
      obtain e where e: "i + 1 \<le> e" "e \<le> max (i + 1) (length lines)" and
        r: "collect_block lines (i + 1) (bc + brace_delta (lines ! i)) (rl @ [lines ! i])
              = Some ((rl @ [lines ! i]) @ take (e - (i + 1)) (drop (i + 1) lines), e)"
        by blast
      have "e - i = Suc (e - (i + 1))" using e by arith
      moreover have "drop i lines = lines ! i # drop (i + 1) lines"
        using i by (simp add: Cons_nth_drop_Suc)
      ultimately have "[lines ! i] @ take (e - (i + 1)) (drop (i + 1) lines)
                       = take (e - i) (drop i lines)"
        by simp
      with True go r
      have "collect_block lines i bc rl = Some (rl @ take (e - i) (drop i lines), e)"
        by (subst collect_block.simps) simp
      with e i show ?thesis by (intro exI [of _ e]) auto
    qed
  qed
qed

lemma collect_block_shift:
  "collect_block (x # lines) (Suc i) bc rl
     = map_option (\<lambda>(r, e). (r, Suc e)) (collect_block lines i bc rl)"
proof (induction "length lines - i" arbitrary: i bc rl rule: less_induct)
  case less
  show ?case
  proof (cases "i < length lines \<and> (0 < bc \<or> \<not> in_str ''}'' (lines ! i))")
    case False
    then show ?thesis
      by (subst collect_block.simps, subst (2) collect_block.simps) auto
  next
    case True
    show ?thesis
    proof (cases "bc + brace_delta (lines ! i) \<le> 0")
      case stop: True
      with True show ?thesis
        by (subst collect_block.simps, subst (2) collect_block.simps) auto
    next
      case go: False
      from True have "length lines - (i + 1) < length lines - i" by arith
      from less [OF this, of "bc + brace_delta (lines ! i)" "rl @ [lines ! i]"] True go
      show ?thesis
        by (subst collect_block.simps, subst (2) collect_block.simps) auto
    qed
  qed
qed

lemma skip_block_shift:
  "skip_block (x # lines) (Suc i) bc = map_option Suc (skip_block lines i bc)"
proof (induction "length lines - i" arbitrary: i bc rule: less_induct)
  case less
  show ?case
  proof (cases "i < length lines \<and> 0 < bc")
    case False
    then show ?thesis
      by (subst skip_block.simps, subst (2) skip_block.simps) auto
  next
    case True
    then have "length lines - (i + 1) < length lines - i" by arith
    from less [OF this, of "bc + brace_delta (lines ! i)"] True
    show ?thesis
      by (subst skip_block.simps, subst (2) skip_block.simps) auto
  qed
qed

lemma scan_override_shift:
  "scan_override (x # lines) sel (map Suc js) = scan_override lines sel js"
  by (induction js) simp_all

lemma has_dark_override_shift:
  "has_dark_override (x # lines) (Suc i) sel = has_dark_override lines i sel"
  using scan_override_shift [of x lines sel "[i + 1 ..< length lines]"]
  by (simp add: has_dark_override_def map_Suc_upt)

lemma merge_loop_shift:
  "merge_loop (x # lines) (Suc i) res m = merge_loop lines i res m"
proof (induction "length lines - i" arbitrary: i res m rule: less_induct)
  case less
  show ?case
  proof (cases "i < length lines")
    case False
    then show ?thesis by (simp add: merge_loop_end)
  next
    case True
    have IH: "merge_loop (x # lines) (Suc i') res' m' = merge_loop lines i' res' m'"
      if "i < i'" for i' res' m'
      using less [of i' res' m'] True that by simp
    let ?xl = "x # lines"
    have S: "Suc i < length ?xl" "?xl ! Suc i = lines ! i" using True by simp_all
    show ?thesis
    proof (cases "is_dark (lines ! i)")
      case dark: True
      obtain rl i1 where
        c: "collect_block lines (i + 1) (brace_delta (lines ! i)) [strip_markers (lines ! i)]
              = Some (rl, i1)" and i1: "i + 1 \<le> i1"
        using collect_block_returns [of lines "i + 1"] by blast
      then have c': "collect_block ?xl (Suc i + 1) (brace_delta (?xl ! Suc i))
                       [strip_markers (?xl ! Suc i)] = Some (rl, Suc i1)"
        using collect_block_shift [of x lines "i + 1"] by simp
      from i1 have lt: "i < i1 + 1" by simp
      show ?thesis
        unfolding merge_loop_dark [OF S(1) _ c', unfolded S(2), OF dark]
          merge_loop_dark [OF True dark c]
        using IH [OF lt] by simp
    next
      case light: False
      show ?thesis
      proof (cases "is_rule_opening (lines ! i)
                      \<and> has_dark_override lines i (strip (hd (split_on CHR ''{'' (lines ! i))))")
        case over: True
        obtain i2 where s: "skip_block lines (i + 1) (brace_delta (lines ! i)) = Some i2"
          and i2: "i + 1 \<le> i2" using skip_block_returns by blast
        then have s': "skip_block ?xl (Suc i + 1) (brace_delta (?xl ! Suc i)) = Some (Suc i2)"
          using skip_block_shift [of x lines "i + 1"] by simp
        from i2 have lt: "i < i2" by simp
        have "merge_loop ?xl (Suc i) res m = merge_loop ?xl (Suc i2) res m"
          using over light by (intro merge_loop_skip [OF S(1) _ _ _ s'])
            (simp_all add: has_dark_override_shift)
        also have "\<dots> = merge_loop lines i2 res m" by (rule IH [OF lt])
        also have "\<dots> = merge_loop lines i res m"
          using over light by (intro merge_loop_skip [OF True _ _ _ s, symmetric]) simp_all
        finally show ?thesis .
      next
        case False
        have "merge_loop ?xl (Suc i) res m = merge_loop ?xl (Suc i + 1) (res @ [?xl ! Suc i]) m"
          using False light by (intro merge_loop_pass [OF S(1)])
            (simp_all add: has_dark_override_shift)
        also have "\<dots> = merge_loop lines (i + 1) (res @ [lines ! i]) m"
          using IH [of "i + 1"] by simp
        also have "\<dots> = merge_loop lines i res m"
          using False light by (intro merge_loop_pass [OF True, symmetric]) simp_all
        finally show ?thesis .
      qed
    qed
  qed
qed

lemma merge_loop_drop: "merge_loop lines i res m = merge_loop (drop i lines) 0 res m"
proof (induction lines arbitrary: i)
  case Nil
  then show ?case by (simp add: merge_loop_end)
next
  case (Cons x xs)
  then show ?case by (cases i) (simp_all add: merge_loop_shift)
qed

lemma merge_loop_acc:
  "merge_loop lines i res m = map_option ((@) res) (merge_loop lines i [] m)"
proof (induction "length lines - i" arbitrary: i res m rule: less_induct)
  case less
  show ?case
  proof (cases "i < length lines")
    case False
    then show ?thesis by (simp add: merge_loop_end)
  next
    case True
    have IH: "merge_loop lines i' res' m' = map_option ((@) res') (merge_loop lines i' [] m')"
      if "i < i'" for i' res' m'
      using less [of i' res' m'] True that by simp
    show ?thesis
    proof (cases "is_dark (lines ! i)")
      case dark: True
      obtain rl i1 where
        c: "collect_block lines (i + 1) (brace_delta (lines ! i)) [strip_markers (lines ! i)]
              = Some (rl, i1)" and i1: "i + 1 \<le> i1"
        using collect_block_returns [of lines "i + 1"] by blast
      from i1 have lt: "i < i1 + 1" by simp
      let ?blk = "if i1 < length lines then rl @ [lines ! i1] else rl"
      let ?key = "strip (strip_markers (lines ! i))"
      show ?thesis
      proof (cases "?key \<in> m")
        case True
        then show ?thesis
          using IH [OF lt, of res m] by (simp add: merge_loop_dark [OF \<open>i < length lines\<close> dark c])
      next
        case False
        obtain out where "merge_loop lines (i1 + 1) [] (insert ?key m) = Some ([] @ out)"
          using merge_loop_returns by blast
        then have "merge_loop lines (i1 + 1) r (insert ?key m) = Some (r @ out)" for r
          using IH [OF lt, of r "insert ?key m"] by simp
        with False show ?thesis
          by (simp add: merge_loop_dark [OF \<open>i < length lines\<close> dark c])
      qed
    next
      case light: False
      show ?thesis
      proof (cases "is_rule_opening (lines ! i)
                      \<and> has_dark_override lines i (strip (hd (split_on CHR ''{'' (lines ! i))))")
        case over: True
        obtain i2 where s: "skip_block lines (i + 1) (brace_delta (lines ! i)) = Some i2"
          and i2: "i + 1 \<le> i2" using skip_block_returns by blast
        from i2 have lt: "i < i2" by simp
        from over have "merge_loop lines i r m = merge_loop lines i2 r m" for r
          by (intro merge_loop_skip [OF True light _ _ s]) simp_all
        with IH [OF lt, of res m] show ?thesis by simp
      next
        case False
        have p: "merge_loop lines i r m = merge_loop lines (i + 1) (r @ [lines ! i]) m" for r
          by (rule merge_loop_pass [OF True light False])
        obtain out where "merge_loop lines (i + 1) [] m = Some ([] @ out)"
          using merge_loop_returns by blast
        then have "merge_loop lines (i + 1) r m = Some (r @ out)" for r
          using IH [of "i + 1" r m] by simp
        then show ?thesis by (simp add: p)
      qed
    qed
  qed
qed

lemma skip_block_span:
  "\<exists>e. i \<le> e \<and> e \<le> max i (length lines) \<and> skip_block lines i bc = Some e"
proof (induction "length lines - i" arbitrary: i bc rule: less_induct)
  case less
  show ?case
  proof (cases "i < length lines \<and> 0 < bc")
    case False
    then have "skip_block lines i bc = Some i"
      by (subst skip_block.simps) auto
    then show ?thesis by simp
  next
    case True
    then have "length lines - (i + 1) < length lines - i" by arith
    from less [OF this, of "bc + brace_delta (lines ! i)"]
    obtain e where r: "skip_block lines (i + 1) (bc + brace_delta (lines ! i)) = Some e"
      and e: "i + 1 \<le> e" "e \<le> max (i + 1) (length lines)" by blast
    from True r have "skip_block lines i bc = Some e"
      by (subst skip_block.simps) auto
    with e True show ?thesis by (intro exI [of _ e]) auto
  qed
qed

text \<open>
  The main loop seen from its cursor: what it does at the first of the remaining lines.
\<close>

lemma pass_step:
  assumes "\<not> is_dark l"
    and "\<not> (is_rule_opening l
            \<and> has_dark_override (l # rest) 0 (strip (hd (split_on CHR ''{'' l))))"
  shows "merge_loop (l # rest) 0 res m = merge_loop rest 0 (res @ [l]) m"
  using merge_loop_pass [of 0 "l # rest" res m] assms
  by (simp add: merge_loop_shift)

text \<open>
  An overridden base rule is skipped with its block: nothing is emitted for it, and for a
  rule whose braces are balanced on its opening line the scan goes on at the next line.
\<close>

lemma skip_step:
  assumes "\<not> is_dark l" and "is_rule_opening l"
    and "has_dark_override (l # rest) 0 (strip (hd (split_on CHR ''{'' l)))"
  shows "\<exists>n\<le>length rest. (brace_delta l \<le> 0 \<longrightarrow> n = 0)
           \<and> merge_loop (l # rest) 0 res m = merge_loop (drop n rest) 0 res m"
proof -
  obtain e where e: "1 \<le> e" "e \<le> Suc (length rest)"
    and s: "skip_block (l # rest) (0 + 1) (brace_delta ((l # rest) ! 0)) = Some e"
    using skip_block_span [of 1 "l # rest" "brace_delta l"] by auto
  have z: "brace_delta l \<le> 0 \<Longrightarrow> e = 1"
    using s by (subst (asm) skip_block.simps) simp
  have "merge_loop (l # rest) 0 res m = merge_loop (l # rest) e res m"
    using assms by (intro merge_loop_skip [OF _ _ _ _ s]) simp_all
  also have "\<dots> = merge_loop (drop (e - 1) rest) 0 res m"
    using e by (subst merge_loop_drop) (simp add: drop_Cons')
  finally show ?thesis using e z by (intro exI [of _ "e - 1"]) auto
qed

text \<open>
  A dark-scoped line takes the \<open>n\<close> lines after it into its block, at least one when a line
  is left; the block is emitted or dropped as a whole.
\<close>

lemma dark_step:
  assumes "is_dark d"
  shows "\<exists>n\<le>length rest. (rest \<noteq> [] \<longrightarrow> 0 < n)
           \<and> merge_loop (d # rest) 0 res m =
               (if strip (strip_markers d) \<notin> m
                then merge_loop (drop n rest) 0 (res @ strip_markers d # take n rest)
                       (insert (strip (strip_markers d)) m)
                else merge_loop (drop n rest) 0 res m)"
proof -
  let ?ls = "d # rest"
  obtain e where e: "1 \<le> e" "e \<le> Suc (length rest)"
    and c: "collect_block ?ls (0 + 1) (brace_delta (?ls ! 0)) [strip_markers (?ls ! 0)]
              = Some ([strip_markers d] @ take (e - 1) rest, e)"
    using collect_block_span [of 1 ?ls "brace_delta d" "[strip_markers d]"] by auto
  have step: "merge_loop ?ls 0 res m =
           (if strip (strip_markers d) \<notin> m
            then merge_loop ?ls (e + 1)
                   (res @ (if e < length ?ls
                           then ([strip_markers d] @ take (e - 1) rest) @ [?ls ! e]
                           else [strip_markers d] @ take (e - 1) rest))
                   (insert (strip (strip_markers d)) m)
            else merge_loop ?ls (e + 1) res m)"
    using merge_loop_dark [OF _ _ c, of res m] assms by simp
  show ?thesis
  proof (cases "e < length ?ls")
    case True
    then have lt: "e - 1 < length rest" using e by simp
    have "take (e - 1) rest @ [?ls ! e] = take e rest"
      using e lt take_Suc_conv_app_nth [OF lt] by (simp add: nth_Cons')
    moreover have "merge_loop ?ls (e + 1) r k = merge_loop (drop e rest) 0 r k" for r k
      by (subst merge_loop_drop) simp
    ultimately show ?thesis using step True e
      by (intro exI [of _ e]) auto
  next
    case False
    with e have ee: "e = Suc (length rest)" by simp
    have "merge_loop ?ls (e + 1) r k = merge_loop (drop (length rest) rest) 0 r k" for r k
      using ee by (simp add: merge_loop_end)
    then show ?thesis using step ee
      by (intro exI [of _ "length rest"]) auto
  qed
qed

section \<open>A dark rule before its base rule\<close>

text \<open>The lookahead of a line depends on the later lines only.\<close>

lemma has_dark_override_forward:
  "has_dark_override (pre @ lines) (length pre + i) selector = has_dark_override lines i selector"
  by (induction pre) (simp_all add: has_dark_override_shift)

text \<open>
  C7: on the two-line stylesheet whose dark rule for \<^verbatim>\<open>.card\<close> precedes the base rule, the
  output has the marker-stripped dark line first and keeps the base line unchanged.  The
  lookahead from the base line finds no override: it scans forward only, so for any
  stylesheet the lines \<open>pre\<close> before the cursor have no part in its answer.
\<close>

theorem dark_before_base_keeps_both:
  "merge_dark_mode_css ''body.dark-mode .card { color: #fff; }\<newline>.card { color: #000; }''
     = Some ''.card { color: #fff; }\<newline>.card { color: #000; }''
   \<and> \<not> has_dark_override
         [''body.dark-mode .card { color: #fff; }'', ''.card { color: #000; }''] 1 ''.card''
   \<and> has_dark_override (pre @ lines) (length pre + i) selector
       = has_dark_override lines i selector"
proof -
  have "merge_dark_mode_css ''body.dark-mode .card { color: #fff; }\<newline>.card { color: #000; }''
     = Some ''.card { color: #fff; }\<newline>.card { color: #000; }''"
    by code_simp
  moreover have "\<not> has_dark_override
         [''body.dark-mode .card { color: #fff; }'', ''.card { color: #000; }''] 1 ''.card''"
    by code_simp
  ultimately show ?thesis
    using has_dark_override_forward by blast
qed

section \<open>The lookahead\<close>

lemma scan_override_upt:
  "scan_override lines sel [a..<b] \<longleftrightarrow>
     (\<exists>j. a \<le> j \<and> j < b \<and> is_override_of sel (lines ! j)
          \<and> (\<forall>k. a \<le> k \<and> k < j \<longrightarrow> count_list (lines ! k) CHR ''{'' \<le> 3))"
proof (induction "b - a" arbitrary: a)
  case 0
  then show ?case by simp
next
  case (Suc n)
  then have ab: "a < b" and n: "n = b - Suc a" by arith+
  have upt: "[a..<b] = a # [Suc a..<b]" using ab by (simp add: upt_rec)
  let ?R = "\<lambda>a. \<exists>j. a \<le> j \<and> j < b \<and> is_override_of sel (lines ! j)
          \<and> (\<forall>k. a \<le> k \<and> k < j \<longrightarrow> count_list (lines ! k) CHR ''{'' \<le> 3)"
  show ?case
  proof (cases "is_override_of sel (lines ! a)")
    case True
    then have "?R a" using ab by (intro exI [of _ a]) simp
    with True upt show ?thesis by simp
  next
    case nomatch: False
    show ?thesis
    proof (cases "3 < count_list (lines ! a) CHR ''{''")
      case True
      have "\<not> ?R a"
      proof
        assume "?R a"
        then obtain j where j: "a \<le> j" "j < b" "is_override_of sel (lines ! j)"
          "\<forall>k. a \<le> k \<and> k < j \<longrightarrow> count_list (lines ! k) CHR ''{'' \<le> 3" by blast
        from j(3) nomatch have "j \<noteq> a" by auto
        with j(1) have "a < j" by simp
        with j(4) have "count_list (lines ! a) CHR ''{'' \<le> 3" by simp
        with True show False by simp
      qed
      with nomatch True upt show ?thesis by simp
    next
      case False
      have "?R a \<longleftrightarrow> ?R (Suc a)"
      proof
        assume "?R a"
        then obtain j where j: "a \<le> j" "j < b" "is_override_of sel (lines ! j)"
          "\<forall>k. a \<le> k \<and> k < j \<longrightarrow> count_list (lines ! k) CHR ''{'' \<le> 3" by blast
        from j(3) nomatch have "j \<noteq> a" by auto
        with j(1) have "Suc a \<le> j" by simp
        with j show "?R (Suc a)" by (intro exI [of _ j]) simp
      next
        assume "?R (Suc a)"
        then obtain j where j: "Suc a \<le> j" "j < b" "is_override_of sel (lines ! j)"
          "\<forall>k. Suc a \<le> k \<and> k < j \<longrightarrow> count_list (lines ! k) CHR ''{'' \<le> 3" by blast
        have "\<forall>k. a \<le> k \<and> k < j \<longrightarrow> count_list (lines ! k) CHR ''{'' \<le> 3"
        proof (intro allI impI)
          fix k assume k: "a \<le> k \<and> k < j"
          show "count_list (lines ! k) CHR ''{'' \<le> 3"
          proof (cases "k = a")
            case True with False show ?thesis by simp
          next
            case False with k j(4) show ?thesis by simp
          qed
        qed
        with j show "?R a" by (intro exI [of _ j]) simp
      qed
      with Suc.hyps(1) [OF n] nomatch False upt show ?thesis by simp
    qed
  qed
qed

text \<open>
  What the lookahead computes: from line \<open>i\<close> it reports an override exactly when some later
  line \<open>j\<close> contains \<^verbatim>\<open>body.dark-mode \<close> or \<^verbatim>\<open>.dark-mode \<close> followed by the selector and no line
  strictly between \<open>i\<close> and \<open>j\<close> has, by itself, more than three \<^verbatim>\<open>{\<close>.  The scan stops early on
  a match or on a single line with four or more \<^verbatim>\<open>{\<close>; the braces of different lines are
  never added up.
\<close>

lemma lookahead_stops_on_match_or_wide_line:
  "has_dark_override lines i selector \<longleftrightarrow>
     (\<exists>j. i < j \<and> j < length lines \<and> is_override_of selector (lines ! j)
          \<and> (\<forall>k. i < k \<and> k < j \<longrightarrow> count_list (lines ! k) CHR ''{'' \<le> 3))"
proof -
  have "(\<exists>j. i + 1 \<le> j \<and> j < length lines \<and> is_override_of selector (lines ! j)
          \<and> (\<forall>k. i + 1 \<le> k \<and> k < j \<longrightarrow> count_list (lines ! k) CHR ''{'' \<le> 3))
        \<longleftrightarrow>
        (\<exists>j. i < j \<and> j < length lines \<and> is_override_of selector (lines ! j)
          \<and> (\<forall>k. i < k \<and> k < j \<longrightarrow> count_list (lines ! k) CHR ''{'' \<le> 3))"
    by (simp add: Suc_le_eq)
  then show ?thesis
    unfolding has_dark_override_def scan_override_upt by simp
qed

text \<open>
  Two instances: an override three lines below the base rule is found; an override behind a
  line with four \<^verbatim>\<open>{\<close> is not.
\<close>

lemma lookahead_stops_on_match_or_wide_line_instances:
  "(\<exists>j. 0 < j \<and> j < length [''.a {'', ''  color: #000;'', ''}'', ''.dark-mode .a {'', ''}'']
        \<and> is_override_of ''.a''
             ([''.a {'', ''  color: #000;'', ''}'', ''.dark-mode .a {'', ''}''] ! j)
        \<and> (\<forall>k. 0 < k \<and> k < j \<longrightarrow>
               count_list ([''.a {'', ''  color: #000;'', ''}'', ''.dark-mode .a {'', ''}''] ! k)
                 CHR ''{'' \<le> 3))
   \<and> \<not> (\<exists>j. 0 < j \<and> j < length [''.a { }'', ''@media x { .b { } .c { } .d { } }'', ''.dark-mode .a { }'']
        \<and> is_override_of ''.a''
             ([''.a { }'', ''@media x { .b { } .c { } .d { } }'', ''.dark-mode .a { }''] ! j)
        \<and> (\<forall>k. 0 < k \<and> k < j \<longrightarrow>
               count_list ([''.a { }'', ''@media x { .b { } .c { } .d { } }'', ''.dark-mode .a { }''] ! k)
                 CHR ''{'' \<le> 3))"
proof -
  have "has_dark_override [''.a {'', ''  color: #000;'', ''}'', ''.dark-mode .a {'', ''}''] 0 ''.a''"
    by code_simp
  moreover have "\<not> has_dark_override
      [''.a { }'', ''@media x { .b { } .c { } .d { } }'', ''.dark-mode .a { }''] 0 ''.a''"
    by code_simp
  ultimately show ?thesis
    unfolding lookahead_stops_on_match_or_wide_line by blast
qed

text \<open>
  C3 says that the lookahead stops once the lines scanned hold four \<^verbatim>\<open>{\<close> together, as the
  comment of line 62 has it (\<^verbatim>\<open>Stop looking after seeing multiple rules\<close>).  The code does not:
  on six one-line rules the four lines between the base rule \<^verbatim>\<open>.a\<close> and its override hold four
  \<^verbatim>\<open>{\<close>, one each, yet the code scans past them, finds the override and drops the base rule,
  while the lookahead of the specification stops before the override.
\<close>

theorem lookahead_is_not_cumulative:
  "has_dark_override
     [''.a { }'', ''.b { }'', ''.c { }'', ''.d { }'', ''.e { }'', ''.dark-mode .a { }''] 0 ''.a''
   \<and> \<not> has_dark_override_cumulative
     [''.a { }'', ''.b { }'', ''.c { }'', ''.d { }'', ''.e { }'', ''.dark-mode .a { }''] 0 ''.a''
   \<and> merge_lines
     [''.a { }'', ''.b { }'', ''.c { }'', ''.d { }'', ''.e { }'', ''.dark-mode .a { }'']
      = Some [''.b { }'', ''.c { }'', ''.d { }'', ''.e { }'', ''.a { }'']
   \<and> merge_dark_mode_css
     ''.a { }\<newline>.b { }\<newline>.c { }\<newline>.d { }\<newline>.e { }\<newline>.dark-mode .a { }''
      = Some ''.b { }\<newline>.c { }\<newline>.d { }\<newline>.e { }\<newline>.a { }''"
  by code_simp

section \<open>The line after a dark block\<close>

text \<open>
  What the loop does with the scan at a dark-scoped line \<open>d\<close>.  When the collecting loop has
  returned \<open>rule_lines\<close> with the cursor at \<open>e\<close> and a line is left there, that line is
  appended to the block whatever it contains, and the main loop goes on after it.  The
  block, this line included, is emitted when the trimmed opening line of \<open>d\<close> is not yet in
  \<open>merged_selectors\<close> and discarded as a whole otherwise; so the line \<open>l\<close> after \<open>d\<close> is emitted
  as it is right after the stripped \<open>d\<close>, or dropped together with \<open>d\<close>.  This is about the
  dark-scoped lines that the scan reaches: one that is itself the line after a block is
  copied as it is and opens no block of its own.
\<close>

lemma next_line_joins_dark_block:
  "(is_dark d \<and> collect_block (d # rest) 1 (brace_delta d) [strip_markers d] = Some (rule_lines, e)
      \<and> e < length (d # rest) \<longrightarrow>
      merge_loop (d # rest) 0 result_lines merged =
        (if strip (strip_markers d) \<notin> merged
         then merge_loop (drop e rest) 0 (result_lines @ rule_lines @ [(d # rest) ! e])
                (insert (strip (strip_markers d)) merged)
         else merge_loop (drop e rest) 0 result_lines merged))
   \<and> (is_dark d \<and> strip (strip_markers d) \<notin> merged \<longrightarrow>
        (\<exists>n out. n \<le> length rest
           \<and> merge_loop (drop n rest) 0 [] (insert (strip (strip_markers d)) merged) = Some out
           \<and> merge_loop (d # l # rest) 0 result_lines merged
               = Some (result_lines @ strip_markers d # l # take n rest @ out)))
   \<and> (is_dark d \<and> strip (strip_markers d) \<in> merged \<longrightarrow>
        (\<exists>n\<le>length rest. merge_loop (d # l # rest) 0 result_lines merged
                            = merge_loop (drop n rest) 0 result_lines merged))"
proof (intro conjI impI)
  assume a: "is_dark d \<and> collect_block (d # rest) 1 (brace_delta d) [strip_markers d]
               = Some (rule_lines, e) \<and> e < length (d # rest)"
  then have c: "collect_block (d # rest) (0 + 1) (brace_delta ((d # rest) ! 0))
                  [strip_markers ((d # rest) ! 0)] = Some (rule_lines, e)" by simp
  have "merge_loop (d # rest) (e + 1) r k = merge_loop (drop e rest) 0 r k" for r k
    by (subst merge_loop_drop) simp
  with merge_loop_dark [OF _ _ c, of result_lines merged] a
  show "merge_loop (d # rest) 0 result_lines merged =
        (if strip (strip_markers d) \<notin> merged
         then merge_loop (drop e rest) 0 (result_lines @ rule_lines @ [(d # rest) ! e])
                (insert (strip (strip_markers d)) merged)
         else merge_loop (drop e rest) 0 result_lines merged)"
    by simp
next
  let ?key = "strip (strip_markers d)"
  assume a: "is_dark d \<and> ?key \<notin> merged"
  then obtain n where n: "n \<le> length (l # rest)" "0 < n"
    and s: "merge_loop (d # l # rest) 0 result_lines merged
              = merge_loop (drop n (l # rest)) 0
                  (result_lines @ strip_markers d # take n (l # rest)) (insert ?key merged)"
    using dark_step [of d "l # rest" result_lines merged] by auto
  from n obtain k where k: "n = Suc k" "k \<le> length rest" by (cases n) auto
  obtain out where o: "merge_loop (drop k rest) 0 [] (insert ?key merged) = Some out"
    using merge_loop_returns [of "drop k rest" 0 "[]"] by auto
  have "merge_loop (d # l # rest) 0 result_lines merged
          = Some (result_lines @ strip_markers d # l # take k rest @ out)"
    unfolding s k
    by (subst merge_loop_acc) (simp add: o)
  with k o show "\<exists>n out. n \<le> length rest
           \<and> merge_loop (drop n rest) 0 [] (insert ?key merged) = Some out
           \<and> merge_loop (d # l # rest) 0 result_lines merged
               = Some (result_lines @ strip_markers d # l # take n rest @ out)"
    by blast
next
  let ?key = "strip (strip_markers d)"
  assume a: "is_dark d \<and> ?key \<in> merged"
  then obtain n where n: "n \<le> length (l # rest)" "0 < n"
    and s: "merge_loop (d # l # rest) 0 result_lines merged
              = merge_loop (drop n (l # rest)) 0 result_lines merged"
    using dark_step [of d "l # rest" result_lines merged] by auto
  from n obtain k where k: "n = Suc k" "k \<le> length rest" by (cases n) auto
  with s show "\<exists>n\<le>length rest. merge_loop (d # l # rest) 0 result_lines merged
                            = merge_loop (drop n rest) 0 result_lines merged"
    by auto
qed

text \<open>
  A three-line dark rule followed by a second dark rule: the opening line of the second rule
  is the line after the block, so it is emitted with its marker and the scan goes on at the
  closing brace.
\<close>

lemma next_line_joins_dark_block_instance:
  "is_dark ''.dark-mode .a {''
   \<and> collect_block [''.dark-mode .a {'', ''  color: red;'', ''}'', ''.dark-mode .b {'', ''}''] 1
         (brace_delta ''.dark-mode .a {'') [strip_markers ''.dark-mode .a {'']
       = Some ([''.a {'', ''  color: red;'', ''}''], 3)
   \<and> merge_loop [''.dark-mode .a {'', ''  color: red;'', ''}'', ''.dark-mode .b {'', ''}''] 0 [] {}
       = merge_loop [''}''] 0 [''.a {'', ''  color: red;'', ''}'', ''.dark-mode .b {''] {''.a {''}
   \<and> merge_loop [''}''] 0 [''.a {'', ''  color: red;'', ''}'', ''.dark-mode .b {''] {''.a {''}
       = Some [''.a {'', ''  color: red;'', ''}'', ''.dark-mode .b {'', ''}'']"
proof -
  let ?d = "''.dark-mode .a {''"
  let ?rest = "[''  color: red;'', ''}'', ''.dark-mode .b {'', ''}'']"
  have d: "is_dark ?d" by code_simp
  have c: "collect_block (?d # ?rest) 1 (brace_delta ?d) [strip_markers ?d]
             = Some ([''.a {'', ''  color: red;'', ''}''], 3)" by code_simp
  have k: "strip (strip_markers ?d) = ''.a {''" by code_simp
  have r: "merge_loop [''}''] 0 [''.a {'', ''  color: red;'', ''}'', ''.dark-mode .b {''] {''.a {''}
       = Some [''.a {'', ''  color: red;'', ''}'', ''.dark-mode .b {'', ''}'']"
    by code_simp
  from next_line_joins_dark_block [of ?d ?rest "[''.a {'', ''  color: red;'', ''}'']" 3 "[]" "{}"]
    d c
  have "merge_loop (?d # ?rest) 0 [] {}
       = merge_loop [''}''] 0 [''.a {'', ''  color: red;'', ''}'', ''.dark-mode .b {''] {''.a {''}"
    unfolding k by simp
  with d c r show ?thesis by simp
qed

text \<open>
  C10 says that the line after a collected dark block is appended to the block and emitted as
  it is.  The code appends it, but does not always emit it: when the block repeats an opening
  line that was emitted before, lines 47-50 discard the block, and the line after it, here
  the rule \<^verbatim>\<open>.keep { }\<close>, is lost with it, since the cursor has stepped over it (line 79).
\<close>

theorem line_after_duplicate_block_is_lost:
  "collect_block [''.dark-mode .a {'', ''  color: red;'', ''}'', '''',
                  ''.dark-mode .a {'', ''  color: blue;'', ''}'', ''.keep { }''] 5 1 [''.a {'']
     = Some ([''.a {'', ''  color: blue;'', ''}''], 7)
   \<and> merge_lines [''.dark-mode .a {'', ''  color: red;'', ''}'', '''',
                    ''.dark-mode .a {'', ''  color: blue;'', ''}'', ''.keep { }'']
     = Some [''.a {'', ''  color: red;'', ''}'', '''']
   \<and> merge_dark_mode_css
       ''.dark-mode .a {\<newline>  color: red;\<newline>}\<newline>\<newline>.dark-mode .a {\<newline>  color: blue;\<newline>}\<newline>.keep { }''
     = Some ''.a {\<newline>  color: red;\<newline>}\<newline>''"
  by code_simp

section \<open>Rules that follow a dark block directly\<close>

text \<open>
  C1 says that no line of the output contains a scope marker, \<^verbatim>\<open>body.dark-mode \<close> or
  \<^verbatim>\<open>.dark-mode \<close>.  The code keeps one on two consecutive one-line dark rules: the second line
  is appended to the block of the first (lines 42-43) and the cursor then steps over it
  (line 79), so it reaches the output as it is.
\<close>

theorem marker_survives_after_block:
  "merge_dark_mode_css ''.dark-mode .a { color: red; }\<newline>.dark-mode .b { color: blue; }''
     = Some ''.a { color: red; }\<newline>.dark-mode .b { color: blue; }''
   \<and> in_str ''.dark-mode '' ''.dark-mode .b { color: blue; }''"
  by code_simp

text \<open>
  C2 says that a base rule with a dark-scoped rule for the same selector within the lookahead
  is replaced by the marker-stripped dark version.  The code keeps the base rule for \<^verbatim>\<open>.card\<close>
  here, with its override on the very next line: the base line follows a one-line dark rule,
  is appended to that rule's block and stepped over, so the lookahead, which does report the
  override from that line, is never run for it.
\<close>

theorem base_rule_after_dark_block_is_kept:
  "merge_dark_mode_css
     ''.dark-mode .x { }\<newline>.card { color: #000; }\<newline>.dark-mode .card { color: #fff; }''
     = Some ''.x { }\<newline>.card { color: #000; }\<newline>.card { color: #fff; }''
   \<and> has_dark_override
         [''.dark-mode .x { }'', ''.card { color: #000; }'', ''.dark-mode .card { color: #fff; }'']
         1 ''.card''"
  by code_simp

text \<open>
  C4 says that a dark-scoped rule for a selector without a base rule comes out exactly once,
  unscoped.  The code leaves the rule for \<^verbatim>\<open>.card\<close> scoped here: two dark rules with no blank
  line between them, so the opening line of the second is the line after the block of the
  first and is copied as it is; the output has no unscoped rule for \<^verbatim>\<open>.card\<close>.
\<close>

theorem dark_rule_after_block_stays_scoped:
  "merge_dark_mode_css
     ''.dark-mode .nav {\<newline>  color: #eee;\<newline>}\<newline>.dark-mode .card {\<newline>  color: #fff;\<newline>}''
     = Some ''.nav {\<newline>  color: #eee;\<newline>}\<newline>.dark-mode .card {\<newline>  color: #fff;\<newline>}''"
  by code_simp

section \<open>Dark rules seen more than once\<close>

text \<open>
  What the set \<open>merged_selectors\<close> does: at a dark-scoped line the block is emitted, and its
  key recorded, only if the trimmed, marker-stripped opening line is not yet in the set; the
  key is the whole opening line, not the selector before the brace.
\<close>

lemma dark_rule_emitted_once_per_opening_line:
  "is_dark d \<longrightarrow>
     (\<exists>n\<le>length rest.
        merge_loop (d # rest) 0 result_lines merged =
          (if strip (strip_markers d) \<in> merged
           then merge_loop (drop n rest) 0 result_lines merged
           else merge_loop (drop n rest) 0 (result_lines @ strip_markers d # take n rest)
                  (insert (strip (strip_markers d)) merged)))"
proof
  assume "is_dark d"
  then obtain n where "n \<le> length rest"
    and "merge_loop (d # rest) 0 result_lines merged =
               (if strip (strip_markers d) \<notin> merged
                then merge_loop (drop n rest) 0 (result_lines @ strip_markers d # take n rest)
                       (insert (strip (strip_markers d)) merged)
                else merge_loop (drop n rest) 0 result_lines merged)"
    using dark_step [of d rest result_lines merged] by blast
  then show "\<exists>n\<le>length rest.
        merge_loop (d # rest) 0 result_lines merged =
          (if strip (strip_markers d) \<in> merged
           then merge_loop (drop n rest) 0 result_lines merged
           else merge_loop (drop n rest) 0 (result_lines @ strip_markers d # take n rest)
                  (insert (strip (strip_markers d)) merged))"
    by (intro exI [of _ n]) simp
qed

text \<open>
  C6 says that of several dark-scoped rules for the same selector only the first is emitted.
  The code emits both of two one-line dark rules for \<^verbatim>\<open>.a\<close> with different declarations: the
  key of each is its whole line, so the second is not recognised as a repetition, although
  the selector that line 55 cuts from either line is \<^verbatim>\<open>.a\<close>.
\<close>

theorem same_selector_other_opening_line_both_emitted:
  "merge_dark_mode_css
     ''.dark-mode .a { color: red; }\<newline>\<newline>/* more */\<newline>.dark-mode .a { background: blue; }''
     = Some ''.a { color: red; }\<newline>\<newline>/* more */\<newline>.a { background: blue; }''
   \<and> strip (hd (split_on CHR ''{'' ''.a { color: red; }'')) = ''.a''
   \<and> strip (hd (split_on CHR ''{'' ''.a { background: blue; }'')) = ''.a''"
  by code_simp

section \<open>Stylesheets without dark-mode lines, and a second run\<close>

lemma in_str_iff: "in_str sub s \<longleftrightarrow> (\<exists>a b. s = a @ sub @ b)"
proof (induction s)
  case Nil
  then show ?case by auto
next
  case (Cons c cs)
  have "(\<exists>a b. c # cs = a @ sub @ b) \<longleftrightarrow> prefix sub (c # cs) \<or> (\<exists>a b. cs = a @ sub @ b)"
    by (auto simp: prefix_def Cons_eq_append_conv)
  with Cons show ?case by (simp add: startswith_def)
qed

lemma in_str_append_left: "in_str (x @ y) s \<Longrightarrow> in_str x s"
  unfolding in_str_iff by (metis append.assoc)

lemma override_line_is_dark: "is_override_of sel l \<Longrightarrow> is_dark l"
proof -
  have a: "''body.dark-mode '' @ sel = ''body.dark-mode'' @ ('' '' @ sel)"
    and b: "''.dark-mode '' @ sel = ''.dark-mode'' @ ('' '' @ sel)" by simp_all
  show "is_override_of sel l \<Longrightarrow> is_dark l"
    unfolding is_override_of_def is_dark_def a b
    using in_str_append_left by blast
qed

lemma scan_override_no_dark:
  "\<forall>j\<in>set js. \<not> is_dark (lines ! j) \<Longrightarrow> \<not> scan_override lines sel js"
  by (induction js) (auto dest: override_line_is_dark)

lemma has_dark_override_no_dark:
  assumes "\<forall>l\<in>set lines. \<not> is_dark l"
  shows "\<not> has_dark_override lines i sel"
  unfolding has_dark_override_def
  using assms by (intro scan_override_no_dark) simp

lemma merge_loop_no_dark:
  "\<forall>l\<in>set lines. \<not> is_dark l \<Longrightarrow> merge_loop lines 0 res m = Some (res @ lines)"
proof (induction lines arbitrary: res)
  case Nil
  then show ?case by (simp add: merge_loop_end)
next
  case (Cons l rest)
  have "merge_loop (l # rest) 0 res m = merge_loop rest 0 (res @ [l]) m"
    using Cons.prems has_dark_override_no_dark [OF Cons.prems] by (intro pass_step) simp_all
  with Cons show ?case by simp
qed

lemma split_on_not_Nil: "split_on sep s \<noteq> []"
  by (induction s) (auto split: list.splits)

lemma join_split_on: "join [sep] (split_on sep s) = s"
proof (induction s)
  case Nil
  then show ?case by simp
next
  case (Cons c cs)
  obtain w ws where w: "split_on sep cs = w # ws"
    using split_on_not_Nil [of sep cs] by (cases "split_on sep cs") auto
  with Cons show ?case by (cases ws) auto
qed

text \<open>
  A stylesheet with no line containing \<^verbatim>\<open>.dark-mode\<close> is returned as it is, so a second run
  can only change an output in which the first run has left such a line.
\<close>

lemma marker_free_fixed:
  assumes "\<forall>line\<in>set (split_on (CHR 0x0A) s). \<not> is_dark line"
  shows "merge_dark_mode_css s = Some s"
  using merge_loop_no_dark [OF assms, of "[]" "{}"]
  by (simp add: merge_dark_mode_css_def merge_lines_def join_split_on)

text \<open>
  C5 says that a second run returns the output of the first unchanged.  It does not where the
  first run leaves a scope marker in its output.  On two consecutive one-line dark rules the
  second line is copied as it is by the first run (lines 42-43 and 79) and stripped by the
  second.  On a dark rule whose selector list runs over two lines the collecting loop copies
  the second selector line as it is (line 36), and again only the second run strips it.
\<close>

theorem second_run_changes_output:
  "merge_dark_mode_css ''.dark-mode .a { color: red; }\<newline>.dark-mode .b { color: blue; }''
     = Some ''.a { color: red; }\<newline>.dark-mode .b { color: blue; }''
   \<and> merge_dark_mode_css ''.a { color: red; }\<newline>.dark-mode .b { color: blue; }''
     = Some ''.a { color: red; }\<newline>.b { color: blue; }''
   \<and> merge_dark_mode_css ''.dark-mode .a,\<newline>.dark-mode .b {\<newline>  color: red;\<newline>}''
     = Some ''.a,\<newline>.dark-mode .b {\<newline>  color: red;\<newline>}''
   \<and> merge_dark_mode_css ''.a,\<newline>.dark-mode .b {\<newline>  color: red;\<newline>}''
     = Some ''.a,\<newline>.b {\<newline>  color: red;\<newline>}''"
  by code_simp

section \<open>The output path\<close>










text \<open>
  The replacement is not limited to the file name: a directory whose name contains \<^verbatim>\<open>.css\<close> is
  renamed in the output path too, and the tool stops with the exception of \<^verbatim>\<open>open\<close> when that
  directory does not exist.
\<close>

lemma output_file_rewrites_directory:
  "output_file ''skins.css/app.css'' = ''skins_merged.css/app_merged.css''
   \<and> main [''merge_dark_mode.py'', ''skins.css/app.css'']
         [''skins.css/app.css'' \<mapsto> ''.dark-mode .a { }''] {''skins.css/app_merged.css''}
       = Some Write_error"
proof -
  have m: "merge_dark_mode_css ''.dark-mode .a { }'' = Some ''.a { }''" by code_simp
  have o: "output_file ''skins.css/app.css'' = ''skins_merged.css/app_merged.css''"
    by code_simp
  show ?thesis by (simp add: main_def m o)
qed

end
